theory Spec2Isabelle
  imports Complex_Main "HOL-Library.Word" "HOL-Library.Multiset"
begin

section \<open>JavaScript strings\<close>

text \<open>
  A JavaScript string is a sequence of UTF-16 code units and \<^verbatim>\<open>.length\<close> counts code
  units, so a string is a list of 16-bit words. \<open>js\<close> writes an ASCII literal.
\<close>

type_synonym unit16 = "16 word"
type_synonym jsstring = "unit16 list"

definition js :: "string \<Rightarrow> jsstring" where
  "js s = map of_char s"

text \<open>
  The separators of \<^verbatim>\<open>/[.!?]+/\<close> are the code units of \<^verbatim>\<open>.\<close> (0x2E), \<^verbatim>\<open>!\<close> (0x21) and
  \<^verbatim>\<open>?\<close> (0x3F); \<^verbatim>\<open>split(' ')\<close> cuts at 0x20.
\<close>

definition dot :: unit16 where
  "dot = 0x2E"

definition space :: unit16 where
  "space = 0x20"

definition isTerminator :: "unit16 \<Rightarrow> bool" where
  "isTerminator c = (c = 0x2E \<or> c = 0x21 \<or> c = 0x3F)"

text \<open>
  \<^verbatim>\<open>String.prototype.trim\<close> strips the code points of WhiteSpace and LineTerminator
  (ECMA-262): TAB, LF, VT, FF, CR, SP, NBSP, U+1680, U+2000 to U+200A, U+2028, U+2029,
  U+202F, U+205F, U+3000 and U+FEFF. All of them are single code units.
\<close>

definition isWhiteSpace :: "unit16 \<Rightarrow> bool" where
  "isWhiteSpace c =
     (c = 0x09 \<or> c = 0x0A \<or> c = 0x0B \<or> c = 0x0C \<or> c = 0x0D \<or> c = 0x20 \<or> c = 0xA0 \<or>
      c = 0x1680 \<or> (0x2000 \<le> c \<and> c \<le> 0x200A) \<or> c = 0x2028 \<or> c = 0x2029 \<or>
      c = 0x202F \<or> c = 0x205F \<or> c = 0x3000 \<or> c = 0xFEFF)"

definition trim :: "jsstring \<Rightarrow> jsstring" where
  "trim s = rev (dropWhile isWhiteSpace (rev (dropWhile isWhiteSpace s)))"

text \<open>
  \<^verbatim>\<open>text.split(/[.!?]+/)\<close>: the pieces between maximal runs of separators. \<open>cur\<close> is the
  piece being read. A string with no separator is returned whole, the empty string as
  \<^verbatim>\<open>[""]\<close>, and a leading or trailing run leaves an empty piece at that end.
\<close>

function splitSentences :: "jsstring \<Rightarrow> jsstring \<Rightarrow> jsstring list" where
  "splitSentences cur [] = [cur]"
| "splitSentences cur (c # cs) =
     (if isTerminator c then cur # splitSentences [] (dropWhile isTerminator cs)
      else splitSentences (cur @ [c]) cs)"
  by pat_completeness auto
termination
  by (relation "measure (\<lambda>(cur, s). length s)")
     (auto simp: le_imp_less_Suc length_dropWhile_le)

text \<open>\<^verbatim>\<open>sentence.split(' ')\<close>: the pieces between single spaces.\<close>

fun splitWords :: "jsstring \<Rightarrow> jsstring \<Rightarrow> jsstring list" where
  "splitWords cur [] = [cur]"
| "splitWords cur (c # cs) =
     (if c = space then cur # splitWords [] cs else splitWords (cur @ [c]) cs)"

section \<open>splitTextIntoChunks\<close>

text \<open>
  The state of either loop is the array \<^verbatim>\<open>chunks\<close> and the buffer being filled
  (\<^verbatim>\<open>wordChunk\<close>, \<^verbatim>\<open>currentChunk\<close>). A string is truthy when it is not empty.
  \<^verbatim>\<open>maxChunkSize\<close> is compared with lengths only; it is an integer here, of either sign.
\<close>

type_synonym chunker = "jsstring list \<times> jsstring"

fun wordStep :: "int \<Rightarrow> chunker \<Rightarrow> jsstring \<Rightarrow> chunker" where
  "wordStep maxChunkSize (chunks, wordChunk) word =
     (if int (length (wordChunk @ [space] @ word)) > maxChunkSize then
        (if wordChunk \<noteq> [] then (chunks @ [trim wordChunk], word)
         else (chunks, wordChunk))
      else (chunks, wordChunk @ [space] @ word))"

definition splitByWords :: "int \<Rightarrow> jsstring list \<Rightarrow> jsstring \<Rightarrow> jsstring list" where
  "splitByWords maxChunkSize chunks sentence =
     (let (chunks', wordChunk) =
            foldl (wordStep maxChunkSize) (chunks, []) (splitWords [] sentence)
      in if wordChunk \<noteq> [] then chunks' @ [trim wordChunk] else chunks')"

fun sentenceStep :: "int \<Rightarrow> chunker \<Rightarrow> jsstring \<Rightarrow> chunker" where
  "sentenceStep maxChunkSize (chunks, currentChunk) sentence =
     (if int (length (currentChunk @ sentence)) > maxChunkSize then
        (if currentChunk \<noteq> [] then (chunks @ [trim currentChunk], sentence)
         else (splitByWords maxChunkSize chunks sentence, currentChunk))
      else (chunks, currentChunk @ sentence @ [dot]))"

definition splitTextIntoChunks :: "jsstring \<Rightarrow> int \<Rightarrow> jsstring list" where
  "splitTextIntoChunks text maxChunkSize =
     (let (chunks, currentChunk) =
            foldl (sentenceStep maxChunkSize) ([], []) (splitSentences [] text);
          chunks' = (if currentChunk \<noteq> [] then chunks @ [trim currentChunk] else chunks)
      in filter (\<lambda>chunk. length chunk > 0) chunks')"

text \<open>
  The buffer after the sentences \<open>ss\<close> have been appended to it, each with its \<^verbatim>\<open>.\<close>
  (the \<^verbatim>\<open>else\<close> branch of the loop taken for each of them).
\<close>

definition accumulated :: "jsstring list \<Rightarrow> jsstring" where
  "accumulated ss = concat (map (\<lambda>sentence. sentence @ [dot]) ss)"

text \<open>
  A chunk as the function emits it, seen as a block of a text to chunk again: it is not
  empty, and either it has no separator (a group of words, or a sentence that became the
  buffer when it overflowed), or it ends with one and is at most one longer than
  \<^verbatim>\<open>maxChunkSize\<close> (a buffer that sentences were appended to).
\<close>

definition fitting :: "int \<Rightarrow> jsstring \<Rightarrow> bool" where
  "fitting m b =
     (b \<noteq> [] \<and>
      (list_all (\<lambda>c. \<not> isTerminator c) b \<or> (isTerminator (last b) \<and> int (length b) \<le> m + 1)))"

text \<open>
  The chunks pushed so far and the buffer, if it is not empty: what the loop over the
  sentences returns has no more chunks than that.
\<close>

definition pending :: "chunker \<Rightarrow> nat" where
  "pending st = length (fst st) + (if snd st = [] then 0 else 1)"

section \<open>Numbers\<close>

text \<open>
  The components of an embedding are JavaScript numbers (IEEE 754 doubles). The averaging
  code uses the constant \<^verbatim>\<open>0\<close>, \<^verbatim>\<open>+\<close>, division by an array length, and \<^verbatim>\<open>NaN\<close>
  (the value of \<^verbatim>\<open>x + undefined\<close>). These four are the parameters of the model, which
  fixes no law of arithmetic: what is proved holds for the doubles as well.
\<close>

record 'n arith =
  num_zero :: 'n
  num_add :: "'n \<Rightarrow> 'n \<Rightarrow> 'n"
  num_div :: "'n \<Rightarrow> nat \<Rightarrow> 'n"
  num_nan :: 'n

text \<open>
  Exact arithmetic on the reals with \<^verbatim>\<open>NaN\<close>, for concrete vectors whose sums and
  quotients are exact in doubles too. No call of \<^verbatim>\<open>averageEmbeddings\<close> divides by 0:
  the division is reached from two vectors on.
\<close>

datatype jsnum = Num real | NaN

fun exactAdd :: "jsnum \<Rightarrow> jsnum \<Rightarrow> jsnum" where
  "exactAdd (Num x) (Num y) = Num (x + y)"
| "exactAdd _ _ = NaN"

fun exactDiv :: "jsnum \<Rightarrow> nat \<Rightarrow> jsnum" where
  "exactDiv (Num x) n = (if n = 0 then NaN else Num (x / real n))"
| "exactDiv NaN n = NaN"

definition exact :: "jsnum arith" where
  "exact = \<lparr>num_zero = Num 0, num_add = exactAdd, num_div = exactDiv, num_nan = NaN\<rparr>"








section \<open>averageEmbeddings on values\<close>

text \<open>
  \<^verbatim>\<open>averaged[i] += embedding[i]\<close>: a read past the end of \<^verbatim>\<open>embedding\<close> is
  \<^verbatim>\<open>undefined\<close> and the sum is \<^verbatim>\<open>NaN\<close>. The index \<open>i\<close> is below \<^verbatim>\<open>dimensions\<close>, the
  length of \<^verbatim>\<open>averaged\<close>, in both loops.
\<close>

definition addComponent :: "'n arith \<Rightarrow> 'n list \<Rightarrow> 'n list \<Rightarrow> nat \<Rightarrow> 'n list" where
  "addComponent A embedding averaged i =
     averaged[i := (if i < length embedding then num_add A (averaged ! i) (embedding ! i)
                    else num_nan A)]"

definition addEmbedding :: "'n arith \<Rightarrow> nat \<Rightarrow> 'n list \<Rightarrow> 'n list \<Rightarrow> 'n list" where
  "addEmbedding A dimensions averaged embedding =
     foldl (addComponent A embedding) averaged [0..<dimensions]"

definition divComponent :: "'n arith \<Rightarrow> nat \<Rightarrow> 'n list \<Rightarrow> nat \<Rightarrow> 'n list" where
  "divComponent A n averaged i = averaged[i := num_div A (averaged ! i) n]"

definition averageEmbeddings :: "'n arith \<Rightarrow> 'n list list \<Rightarrow> 'n list" where
  "averageEmbeddings A embeddings =
     (if length embeddings = 0 then []
      else if length embeddings = 1 then embeddings ! 0
      else
        let dimensions = length (embeddings ! 0);
            averaged = replicate dimensions (num_zero A);
            averaged' = foldl (addEmbedding A dimensions) averaged embeddings
        in foldl (divComponent A (length embeddings)) averaged' [0..<dimensions])"

section \<open>averageEmbeddings on the heap\<close>

text \<open>
  Arrays are objects: \<^verbatim>\<open>embeddings\<close> holds references, \<^verbatim>\<open>return embeddings[0]\<close> hands
  the caller's own array back, and the loops write into the array \<^verbatim>\<open>averaged\<close>. The store
  maps a reference to the array it points to; references below \<open>fresh\<close> are in use.
\<close>

type_synonym ref = nat

record 'n store =
  cell :: "ref \<Rightarrow> 'n list"
  fresh :: ref

definition newArray :: "'n list \<Rightarrow> 'n store \<Rightarrow> ref \<times> 'n store" where
  "newArray xs \<sigma> = (fresh \<sigma>, \<sigma>\<lparr>cell := (cell \<sigma>)(fresh \<sigma> := xs), fresh := Suc (fresh \<sigma>)\<rparr>)"

definition addAt :: "'n arith \<Rightarrow> ref \<Rightarrow> ref \<Rightarrow> 'n store \<Rightarrow> nat \<Rightarrow> 'n store" where
  "addAt A averaged embedding \<sigma> i =
     \<sigma>\<lparr>cell := (cell \<sigma>)(averaged := (cell \<sigma> averaged)
        [i := (if i < length (cell \<sigma> embedding)
               then num_add A (cell \<sigma> averaged ! i) (cell \<sigma> embedding ! i)
               else num_nan A)])\<rparr>"

definition addEmbeddingAt :: "'n arith \<Rightarrow> nat \<Rightarrow> ref \<Rightarrow> 'n store \<Rightarrow> ref \<Rightarrow> 'n store" where
  "addEmbeddingAt A dimensions averaged \<sigma> embedding =
     foldl (addAt A averaged embedding) \<sigma> [0..<dimensions]"

definition divAt :: "'n arith \<Rightarrow> nat \<Rightarrow> ref \<Rightarrow> 'n store \<Rightarrow> nat \<Rightarrow> 'n store" where
  "divAt A n averaged \<sigma> i =
     \<sigma>\<lparr>cell := (cell \<sigma>)(averaged := (cell \<sigma> averaged)
        [i := num_div A (cell \<sigma> averaged ! i) n])\<rparr>"

definition averageEmbeddingsAt :: "'n arith \<Rightarrow> ref list \<Rightarrow> 'n store \<Rightarrow> ref \<times> 'n store" where
  "averageEmbeddingsAt A embeddings \<sigma> =
     (if length embeddings = 0 then newArray [] \<sigma>
      else if length embeddings = 1 then (embeddings ! 0, \<sigma>)
      else
        let dimensions = length (cell \<sigma> (embeddings ! 0));
            (averaged, \<sigma>1) = newArray (replicate dimensions (num_zero A)) \<sigma>;
            \<sigma>2 = foldl (addEmbeddingAt A dimensions averaged) \<sigma>1 embeddings;
            \<sigma>3 = foldl (divAt A (length embeddings) averaged) \<sigma>2 [0..<dimensions]
        in (averaged, \<sigma>3))"

section \<open>generateEmbeddings\<close>

text \<open>
  The embedding provider is outside the program: a call takes the chunk and the
  provider's state and either throws or returns the embedding of the response, with the
  provider's next state. A thrown \<^verbatim>\<open>Error\<close> is its message; the \<^verbatim>\<open>catch\<close> block logs and
  throws a new error around the message of whatever was thrown in the \<^verbatim>\<open>try\<close> block.
  \<^verbatim>\<open>embeddings[0]\<close> of an empty array is \<^verbatim>\<open>undefined\<close>, here \<open>None\<close>.
\<close>

datatype error = Error jsstring

type_synonym ('p, 'n) provider = "jsstring \<Rightarrow> 'p \<Rightarrow> (error + 'n list) \<times> 'p"

fun embedChunks ::
  "('p, 'n) provider \<Rightarrow> jsstring list \<Rightarrow> 'n list list \<Rightarrow> 'p \<Rightarrow> (error + 'n list list) \<times> 'p" where
  "embedChunks create [] embeddings p = (Inr embeddings, p)"
| "embedChunks create (chunk # chunks) embeddings p =
     (case create chunk p of
        (Inl e, p') \<Rightarrow> (Inl e, p')
      | (Inr embedding, p') \<Rightarrow> embedChunks create chunks (embeddings @ [embedding]) p')"

fun rethrow :: "error \<Rightarrow> error" where
  "rethrow (Error message) = Error (js ''Failed to generate embeddings: '' @ message)"

definition generateEmbeddings ::
  "'n arith \<Rightarrow> ('p, 'n) provider \<Rightarrow> jsstring \<Rightarrow> 'p \<Rightarrow> (error + 'n list option) \<times> 'p" where
  "generateEmbeddings A create text p =
     (if text = [] \<or> length (trim text) = 0
      then (Inl (rethrow (Error (js ''Text cannot be empty''))), p)
      else
        case embedChunks create (splitTextIntoChunks text 8000) [] p of
          (Inl e, p') \<Rightarrow> (Inl (rethrow e), p')
        | (Inr embeddings, p') \<Rightarrow>
            if length embeddings > 1 then (Inr (Some (averageEmbeddings A embeddings)), p')
            else (Inr (case embeddings of [] \<Rightarrow> None | embedding # _ \<Rightarrow> Some embedding), p'))"

section \<open>Properties of averageEmbeddings\<close>

text \<open>
  A loop \<^verbatim>\<open>for (let i = 0; i < k; i++) av[i] = g(i, av[i])\<close> rewrites the first \<open>k\<close>
  components one by one and leaves the rest.
\<close>

lemma foldl_update_upt:
  "k \<le> length av \<Longrightarrow>
   foldl (\<lambda>av i. av[i := g i (av ! i)]) av [0..<k] = map (\<lambda>i. g i (av ! i)) [0..<k] @ drop k av"
proof (induction k)
  case 0
  then show ?case by simp
next
  case (Suc k)
  then have k: "k < length av" by simp
  have "foldl (\<lambda>av i. av[i := g i (av ! i)]) av [0..<Suc k]
        = (map (\<lambda>i. g i (av ! i)) [0..<k] @ drop k av)[k := g k ((map (\<lambda>i. g i (av ! i)) [0..<k] @ drop k av) ! k)]"
    using Suc by simp
  also have "(map (\<lambda>i. g i (av ! i)) [0..<k] @ drop k av) ! k = av ! k"
    using k by (simp add: nth_append)
  also have "(map (\<lambda>i. g i (av ! i)) [0..<k] @ drop k av)[k := g k (av ! k)]
        = map (\<lambda>i. g i (av ! i)) [0..<k] @ (drop k av)[0 := g k (av ! k)]"
    by (simp add: list_update_append)
  also have "(drop k av)[0 := g k (av ! k)] = g k (av ! k) # drop (Suc k) av"
    using k by (simp add: Cons_nth_drop_Suc [symmetric])
  finally show ?case by simp
qed

lemma addEmbedding_map:
  "length averaged = d \<Longrightarrow>
   addEmbedding A d averaged embedding =
     map (\<lambda>i. if i < length embedding then num_add A (averaged ! i) (embedding ! i) else num_nan A) [0..<d]"
  unfolding addEmbedding_def addComponent_def
  using foldl_update_upt [of d averaged "\<lambda>i x. if i < length embedding then num_add A x (embedding ! i) else num_nan A"]
  by simp

lemma length_addEmbeddings:
  "length averaged = d \<Longrightarrow> length (foldl (addEmbedding A d) averaged embeddings) = d"
  by (induction embeddings arbitrary: averaged) (simp_all add: addEmbedding_map)

lemma nth_addEmbeddings:
  "length averaged = d \<Longrightarrow> i < d \<Longrightarrow>
   foldl (addEmbedding A d) averaged embeddings ! i =
     foldl (\<lambda>x e. if i < length e then num_add A x (e ! i) else num_nan A) (averaged ! i) embeddings"
  by (induction embeddings arbitrary: averaged) (simp_all add: addEmbedding_map)

lemma divide_map:
  "length averaged = d \<Longrightarrow>
   foldl (divComponent A n) averaged [0..<d] = map (\<lambda>x. num_div A x n) averaged"
proof -
  assume d: "length averaged = d"
  have "foldl (divComponent A n) averaged [0..<d] = map (\<lambda>i. num_div A (averaged ! i) n) [0..<d]"
    unfolding divComponent_def
    using foldl_update_upt [of d averaged "\<lambda>i x. num_div A x n"] d by simp
  also have "\<dots> = map (\<lambda>x. num_div A x n) averaged"
    using d by (simp add: list_eq_iff_nth_eq)
  finally show ?thesis .
qed

lemma averageEmbeddings_many:
  "2 \<le> length embeddings \<Longrightarrow>
   averageEmbeddings A embeddings =
     map (\<lambda>x. num_div A x (length embeddings))
       (foldl (addEmbedding A (length (embeddings ! 0)))
          (replicate (length (embeddings ! 0)) (num_zero A)) embeddings)"
proof -
  assume two: "2 \<le> length embeddings"
  then have "length embeddings \<noteq> 0" "length embeddings \<noteq> 1"
    by auto
  then show ?thesis
    by (simp add: averageEmbeddings_def Let_def divide_map length_addEmbeddings)
qed

lemma foldl_same_length:
  "\<forall>v\<in>set vs. i < length v \<Longrightarrow>
   foldl (\<lambda>x e. if i < length e then num_add A x (e ! i) else num_nan A) z vs =
     foldl (num_add A) z (map (\<lambda>v. v ! i) vs)"
  by (induction vs arbitrary: z) simp_all

subsection \<open>The order of the inputs\<close>






subsection \<open>The store model against the value model\<close>

text \<open>
  The array \<^verbatim>\<open>averaged\<close> is new, so no input is the array written to. When the input
  references are in use, the array returned holds what \<open>averageEmbeddings\<close> computes from
  the input arrays, and every array that existed before the call is unchanged.
\<close>

lemma addAt_loop:
  "embedding \<noteq> averaged \<Longrightarrow>
   cell (foldl (addAt A averaged embedding) \<sigma> [0..<k]) x =
     (if x = averaged
      then foldl (addComponent A (cell \<sigma> embedding)) (cell \<sigma> averaged) [0..<k]
      else cell \<sigma> x)"
  by (induction k arbitrary: x) (simp_all add: addAt_def addComponent_def)

lemma addEmbeddingAt_cell:
  "embedding \<noteq> averaged \<Longrightarrow>
   cell (addEmbeddingAt A d averaged \<sigma> embedding) x =
     (if x = averaged then addEmbedding A d (cell \<sigma> averaged) (cell \<sigma> embedding)
      else cell \<sigma> x)"
  by (simp add: addEmbeddingAt_def addEmbedding_def addAt_loop)

lemma addEmbeddingAt_loop:
  "averaged \<notin> set embeddings \<Longrightarrow>
   cell (foldl (addEmbeddingAt A d averaged) \<sigma> embeddings) x =
     (if x = averaged
      then foldl (addEmbedding A d) (cell \<sigma> averaged) (map (cell \<sigma>) embeddings)
      else cell \<sigma> x)"
proof (induction embeddings arbitrary: \<sigma> x)
  case Nil
  then show ?case by simp
next
  case (Cons e es)
  then have e: "e \<noteq> averaged" and es: "averaged \<notin> set es" by auto
  let ?\<sigma> = "addEmbeddingAt A d averaged \<sigma> e"
  have same: "map (cell ?\<sigma>) es = map (cell \<sigma>) es"
    using es by (intro map_cong) (auto simp: addEmbeddingAt_cell [OF e])
  show ?case
    using Cons.IH [OF es, of ?\<sigma>]
    by (simp add: addEmbeddingAt_cell [OF e] same)
qed

lemma divAt_loop:
  "cell (foldl (divAt A n averaged) \<sigma> [0..<k]) x =
     (if x = averaged then foldl (divComponent A n) (cell \<sigma> averaged) [0..<k]
      else cell \<sigma> x)"
  by (induction k arbitrary: x) (simp_all add: divAt_def divComponent_def)

lemma averageEmbeddingsAt_refines:
  assumes used: "list_all (\<lambda>r. r < fresh \<sigma>) embeddings"
    and run: "averageEmbeddingsAt A embeddings \<sigma> = (r, \<sigma>')"
  shows "cell \<sigma>' r = averageEmbeddings A (map (cell \<sigma>) embeddings) \<and>
         (\<forall>x<fresh \<sigma>. cell \<sigma>' x = cell \<sigma> x)"
proof (cases "length embeddings = 0 \<or> length embeddings = 1")
  case True
  then show ?thesis
    using run by (auto simp: averageEmbeddingsAt_def averageEmbeddings_def newArray_def)
next
  case False
  let ?a = "fresh \<sigma>"
  have notin: "?a \<notin> set embeddings"
    using used by (auto simp: list_all_iff)
  from False have ne: "embeddings \<noteq> []" by auto
  let ?d = "length (cell \<sigma> (embeddings ! 0))"
  let ?\<sigma>1 = "\<sigma>\<lparr>cell := (cell \<sigma>)(?a := replicate ?d (num_zero A)), fresh := Suc ?a\<rparr>"
  have "averageEmbeddingsAt A embeddings \<sigma> =
        (?a, foldl (divAt A (length embeddings) ?a)
                (foldl (addEmbeddingAt A ?d ?a) ?\<sigma>1 embeddings) [0..<?d])"
    using False by (simp add: averageEmbeddingsAt_def newArray_def Let_def)
  with run have r: "r = ?a"
    and \<sigma>': "\<sigma>' = foldl (divAt A (length embeddings) ?a)
                (foldl (addEmbeddingAt A ?d ?a) ?\<sigma>1 embeddings) [0..<?d]"
    by auto
  have same: "map ((cell \<sigma>)(?a := replicate ?d (num_zero A))) embeddings = map (cell \<sigma>) embeddings"
    using notin by (intro map_cong) auto
  have d: "length (map (cell \<sigma>) embeddings ! 0) = ?d"
    using ne by (cases embeddings) simp_all
  have c: "cell \<sigma>' x = (if x = ?a then averageEmbeddings A (map (cell \<sigma>) embeddings) else cell \<sigma> x)" for x
    using False d
    by (simp add: \<sigma>' divAt_loop addEmbeddingAt_loop [OF notin] same
        averageEmbeddings_def Let_def)
  show ?thesis
    by (simp add: c r)
qed

subsection \<open>The claims on averageEmbeddings\<close>

text \<open>
  C3. From two vectors of one length \<open>d\<close> on, the result has length \<open>d\<close> and its
  component \<open>i\<close> is the sum of the components \<open>i\<close> of the inputs, added to 0 in the order
  of the input, divided by the number of inputs. In exact arithmetic the average of
  \<^verbatim>\<open>[1,2,3]\<close> and \<^verbatim>\<open>[3,4,5]\<close> is \<^verbatim>\<open>[2,3,4]\<close>.
\<close>

theorem averageEmbeddings_mean:
  "(2 \<le> length vs \<and> (\<forall>v\<in>set vs. length v = d) \<longrightarrow>
      length (averageEmbeddings A vs) = d \<and>
      (\<forall>i<d. averageEmbeddings A vs ! i =
         num_div A (foldl (num_add A) (num_zero A) (map (\<lambda>v. v ! i) vs)) (length vs))) \<and>
   averageEmbeddings exact [[Num 1, Num 2, Num 3], [Num 3, Num 4, Num 5]] = [Num 2, Num 3, Num 4]"
proof (intro conjI impI allI)
  assume h: "2 \<le> length vs \<and> (\<forall>v\<in>set vs. length v = d)"
  then have two: "2 \<le> length vs" and same: "\<forall>v\<in>set vs. length v = d" by simp_all
  have "0 < length vs" using two by (cases vs) simp_all
  then have "vs ! 0 \<in> set vs" by (rule nth_mem)
  then have d: "length (vs ! 0) = d" using same by simp
  show len: "length (averageEmbeddings A vs) = d"
    using two d by (simp add: averageEmbeddings_many length_addEmbeddings)
  fix i assume i: "i < d"
  have "\<forall>v\<in>set vs. i < length v" using same i by simp
  then show "averageEmbeddings A vs ! i =
         num_div A (foldl (num_add A) (num_zero A) (map (\<lambda>v. v ! i) vs)) (length vs)"
    using two d i
    by (simp add: averageEmbeddings_many length_addEmbeddings nth_addEmbeddings foldl_same_length)
next
  show "averageEmbeddings exact [[Num 1, Num 2, Num 3], [Num 3, Num 4, Num 5]] = [Num 2, Num 3, Num 4]"
    by (simp add: averageEmbeddings_def addEmbedding_def addComponent_def divComponent_def
        exact_def upt_rec)
qed

theorem averageEmbeddings_mean_witness:
  "2 \<le> length [[Num 1, Num 2, Num 3], [Num 3, Num 4, Num 5]] \<and>
   list_all (\<lambda>v. length v = 3) [[Num 1, Num 2, Num 3], [Num 3, Num 4, Num 5]] \<and>
   length (averageEmbeddings exact [[Num 1, Num 2, Num 3], [Num 3, Num 4, Num 5]]) = 3 \<and>
   averageEmbeddings exact [[Num 1, Num 2, Num 3], [Num 3, Num 4, Num 5]] ! 1 = Num 3"
  using averageEmbeddings_mean [of "[[Num 1, Num 2, Num 3], [Num 3, Num 4, Num 5]]" 3 exact]
  by (simp add: exact_def)

text \<open>
  C4. Called on one vector, \<^verbatim>\<open>averageEmbeddings\<close> returns the reference it was given and
  leaves the store as it was: the result is the caller's vector and nothing was written.
  On values, the result is the vector itself.
\<close>

theorem averageEmbeddings_single:
  "averageEmbeddingsAt A [v] \<sigma> = (v, \<sigma>) \<and> averageEmbeddings A [e] = e"
  by (simp add: averageEmbeddings_def averageEmbeddingsAt_def)




text \<open>
  C6. Called on no vector, \<^verbatim>\<open>averageEmbeddings\<close> returns an empty array (a new one in
  the store). No branch of the function throws.
\<close>

theorem averageEmbeddings_empty:
  "averageEmbeddings A [] = [] \<and> cell (snd (averageEmbeddingsAt A [] \<sigma>)) (fst (averageEmbeddingsAt A [] \<sigma>)) = []"
  by (simp add: averageEmbeddings_def averageEmbeddingsAt_def newArray_def)

text \<open>
  C8. For a non-empty input the result is as long as the first vector, whatever the
  lengths of the others.
\<close>

theorem averageEmbeddings_length:
  "embeddings \<noteq> [] \<Longrightarrow> length (averageEmbeddings A embeddings) = length (embeddings ! 0)"
proof (cases "length embeddings = 1")
  case True
  then show ?thesis by (simp add: averageEmbeddings_def)
next
  case False
  assume "embeddings \<noteq> []"
  with False have "2 \<le> length embeddings"
    by (cases embeddings) (auto simp: Suc_le_eq)
  then show ?thesis by (simp add: averageEmbeddings_many length_addEmbeddings)
qed

theorem averageEmbeddings_length_witness:
  "[[Num 1, Num 2], [Num 3, Num 4, Num 5], [Num 1]] \<noteq> [] \<and>
   length (averageEmbeddings exact [[Num 1, Num 2], [Num 3, Num 4, Num 5], [Num 1]]) = 2"
  using averageEmbeddings_length [of "[[Num 1, Num 2], [Num 3, Num 4, Num 5], [Num 1]]" exact]
  by simp

section \<open>Properties of generateEmbeddings\<close>

lemmas js_eval =
  js_def trim_def isWhiteSpace_def isTerminator_def dot_def space_def
  splitTextIntoChunks_def splitByWords_def

text \<open>
  C7. When the text passes the guard, chunking gives the one chunk \<open>chunk\<close> and the
  provider returns \<open>embedding\<close> for it, \<^verbatim>\<open>generateEmbeddings\<close> returns \<open>embedding\<close> itself:
  the provider is called once and \<^verbatim>\<open>averageEmbeddings\<close> is not.
\<close>

theorem generateEmbeddings_single_chunk:
  assumes guard: "trim text \<noteq> []"
    and one: "splitTextIntoChunks text 8000 = [chunk]"
    and reply: "create chunk p = (Inr embedding, p')"
  shows "generateEmbeddings A create text p = (Inr (Some embedding), p')"
proof -
  have "text \<noteq> []" using guard by (auto simp: trim_def)
  then show ?thesis
    using guard one reply by (simp add: generateEmbeddings_def)
qed

theorem generateEmbeddings_single_chunk_witness:
  "trim (js ''a'') \<noteq> [] \<and>
   splitTextIntoChunks (js ''a'') 8000 = [js ''a.''] \<and>
   generateEmbeddings exact (\<lambda>chunk p. (Inr [Num 1, Num 2], p)) (js ''a'') () =
     (Inr (Some [Num 1, Num 2]), ())"
proof -
  have guard: "trim (js ''a'') \<noteq> []" by (simp add: js_eval)
  have one: "splitTextIntoChunks (js ''a'') 8000 = [js ''a.'']" by (simp add: js_eval)
  show ?thesis
    using guard one
      generateEmbeddings_single_chunk [OF guard one,
        of "\<lambda>chunk p. (Inr [Num 1, Num 2], p)" "()" "[Num 1, Num 2]" "()" exact]
    by simp
qed

section \<open>Properties of splitTextIntoChunks\<close>

subsection \<open>The size of a chunk\<close>

text \<open>
  C1. The bound on the chunk length is not kept. With \<^verbatim>\<open>maxChunkSize = 5\<close> the text
  \<^verbatim>\<open>a.bb cc dd ee ff\<close> gives the chunk \<^verbatim>\<open>bb cc dd ee ff\<close> of length 14, which has
  spaces to split at: a sentence that overflows a non-empty buffer becomes the new buffer
  whatever its length. With \<^verbatim>\<open>maxChunkSize = 3\<close> the text \<^verbatim>\<open>a b\<close> gives the chunk
  \<^verbatim>\<open>a b.\<close> of length 4: the length is tested before the \<^verbatim>\<open>.\<close> is appended. And the
  token \<^verbatim>\<open>abcdef\<close>, longer than \<^verbatim>\<open>maxChunkSize = 3\<close>, is dropped, not emitted.
\<close>

theorem splitTextIntoChunks_oversize:
  "splitTextIntoChunks (js ''a.bb cc dd ee ff'') 5 = [js ''a.'', js ''bb cc dd ee ff''] \<and>
   length (js ''bb cc dd ee ff'') = 14 \<and> space \<in> set (js ''bb cc dd ee ff'') \<and>
   splitTextIntoChunks (js ''a b'') 3 = [js ''a b.''] \<and>
   length (js ''a b.'') = 4 \<and> space \<in> set (js ''a b.'') \<and>
   splitTextIntoChunks (js ''abcdef'') 3 = []"
  by (simp add: js_eval)

subsection \<open>Empty and blank input\<close>

lemma whitespace_not_terminator: "isWhiteSpace c \<Longrightarrow> \<not> isTerminator c"
  by (auto simp: isWhiteSpace_def isTerminator_def)

lemma dot_not_whitespace: "\<not> isWhiteSpace dot"
  by (simp add: isWhiteSpace_def dot_def)

lemma dot_terminator: "isTerminator dot"
  by (simp add: isTerminator_def dot_def)

lemma space_whitespace: "isWhiteSpace space"
  by (simp add: isWhiteSpace_def space_def)

lemma trim_whitespace: "list_all isWhiteSpace s \<Longrightarrow> trim s = []"
proof -
  assume "list_all isWhiteSpace s"
  then have d: "dropWhile isWhiteSpace s = []" by (simp add: list_all_iff)
  show ?thesis unfolding trim_def d by simp
qed

lemma trim_dot: "trim (s @ [dot]) = dropWhile isWhiteSpace s @ [dot]"
  by (simp add: trim_def dropWhile_append dot_not_whitespace)

lemma splitSentences_plain:
  "list_all (\<lambda>c. \<not> isTerminator c) s \<Longrightarrow> splitSentences cur s = [cur @ s]"
  by (induction s arbitrary: cur) simp_all

lemma splitWords_whitespace:
  "list_all isWhiteSpace cur \<Longrightarrow> list_all isWhiteSpace s \<Longrightarrow>
   list_all (list_all isWhiteSpace) (splitWords cur s)"
  by (induction s arbitrary: cur) simp_all

lemma wordStep_whitespace:
  "list_all (\<lambda>c. c = []) chunks \<Longrightarrow> list_all isWhiteSpace wordChunk \<Longrightarrow>
   list_all (list_all isWhiteSpace) ws \<Longrightarrow>
   list_all (\<lambda>c. c = []) (fst (foldl (wordStep m) (chunks, wordChunk) ws)) \<and>
   list_all isWhiteSpace (snd (foldl (wordStep m) (chunks, wordChunk) ws))"
  by (induction ws arbitrary: chunks wordChunk)
     (simp_all add: trim_whitespace space_whitespace)

lemma splitByWords_whitespace:
  assumes "list_all isWhiteSpace s"
  shows "list_all (\<lambda>c. c = []) (splitByWords m [] s)"
proof -
  obtain chunks wordChunk
    where f: "foldl (wordStep m) ([], []) (splitWords [] s) = (chunks, wordChunk)"
    by (cases "foldl (wordStep m) ([], []) (splitWords [] s)")
  have "list_all (list_all isWhiteSpace) (splitWords [] s)"
    using assms by (simp add: splitWords_whitespace)
  then have "list_all (\<lambda>c. c = []) chunks \<and> list_all isWhiteSpace wordChunk"
    using wordStep_whitespace [of "[]" "[]" "splitWords [] s" m] f by simp
  then show ?thesis
    by (simp add: splitByWords_def f trim_whitespace)
qed

lemma filter_all_empty:
  "list_all (\<lambda>c. c = []) chunks \<Longrightarrow> filter (\<lambda>chunk. chunk \<noteq> []) chunks = []"
  by (induction chunks) simp_all

text \<open>
  C2, as stated, fails: the empty string and three spaces, at a \<^verbatim>\<open>maxChunkSize\<close> that
  holds them, give the one chunk \<^verbatim>\<open>.\<close> (the empty sentence gets its \<^verbatim>\<open>.\<close> like any
  other, and \<^verbatim>\<open>.\<close> survives \<^verbatim>\<open>trim\<close> and the final filter).
\<close>

theorem splitTextIntoChunks_blank_counterexample:
  "splitTextIntoChunks (js []) 1 = [js ''.''] \<and>
   splitTextIntoChunks (js ''   '') 3 = [js ''.'']"
  by (simp add: js_eval)

text \<open>
  C2, amended. For a text of white space only (the empty text is one) and any
  \<^verbatim>\<open>maxChunkSize\<close>, the result is the single chunk \<^verbatim>\<open>.\<close> when the text is no longer
  than \<^verbatim>\<open>maxChunkSize\<close>, and empty when it is longer.
\<close>

theorem splitTextIntoChunks_whitespace:
  "list_all isWhiteSpace text \<Longrightarrow>
   splitTextIntoChunks text n = (if int (length text) \<le> n then [[dot]] else [])"
proof -
  assume ws: "list_all isWhiteSpace text"
  then have "list_all (\<lambda>c. \<not> isTerminator c) text"
    by (auto simp: list_all_iff whitespace_not_terminator)
  then have ss: "splitSentences [] text = [text]"
    by (simp add: splitSentences_plain)
  have drop: "dropWhile isWhiteSpace text = []"
    using ws by (simp add: list_all_iff)
  show ?thesis
  proof (cases "int (length text) \<le> n")
    case True
    then show ?thesis
      by (simp add: splitTextIntoChunks_def ss trim_dot drop)
  next
    case False
    then show ?thesis
      using splitByWords_whitespace [OF ws, of n]
      by (simp add: splitTextIntoChunks_def ss filter_all_empty)
  qed
qed

theorem splitTextIntoChunks_whitespace_witness:
  "list_all isWhiteSpace (js ''   '') \<and>
   splitTextIntoChunks (js ''   '') 3 = [[dot]] \<and> splitTextIntoChunks (js ''   '') 2 = []"
proof -
  have ws: "list_all isWhiteSpace (js ''   '')" by (simp add: js_def isWhiteSpace_def)
  have len: "length (js ''   '') = 3" by (simp add: js_def)
  show ?thesis
    using ws splitTextIntoChunks_whitespace [OF ws, of 3]
      splitTextIntoChunks_whitespace [OF ws, of 2]
    by (simp add: len)
qed

subsection \<open>Termination and the number of chunks\<close>

text \<open>
  Every function of the model is total: \<open>splitSentences\<close> by the measure given with its
  definition (the text left to read), the others by recursion on a list. The loops run
  over the lists of sentences and of words, whose lengths are bounded below.
\<close>

lemma length_splitWords: "length (splitWords cur s) \<le> length s + 1"
proof (induction s arbitrary: cur)
  case Nil
  then show ?case by simp
next
  case (Cons c cs)
  show ?case
    using Cons [of "[]"] Cons [of "cur @ [c]"] by simp
qed

lemma length_accumulated_splitSentences:
  "length (accumulated (splitSentences cur s)) \<le> length cur + length s + 1"
proof (induction cur s rule: splitSentences.induct)
  case (1 cur)
  then show ?case by (simp add: accumulated_def)
next
  case (2 cur c cs)
  show ?case
  proof (cases "isTerminator c")
    case True
    have "length (dropWhile isTerminator cs) \<le> length cs"
      by (rule length_dropWhile_le)
    with 2(1) [OF True] True show ?thesis
      by (simp add: accumulated_def)
  next
    case False
    with 2(2) [OF False] show ?thesis by simp
  qed
qed

lemma length_accumulated:
  "length (accumulated ss) = sum_list (map length ss) + length ss"
  by (induction ss) (simp_all add: accumulated_def)

lemma length_splitSentences: "length (splitSentences [] s) \<le> length s + 1"
  using length_accumulated_splitSentences [of "[]" s]
  by (simp add: length_accumulated)

lemma length_wordStep:
  "length (fst (wordStep m st w)) \<le> length (fst st) + 1"
  by (cases st) simp

lemma length_wordSteps:
  "length (fst (foldl (wordStep m) st ws)) \<le> length (fst st) + length ws"
proof (induction ws arbitrary: st)
  case Nil
  then show ?case by simp
next
  case (Cons w ws)
  show ?case
    using Cons [of "wordStep m st w"] length_wordStep [of m st w] by simp
qed

lemma length_splitByWords:
  "length (splitByWords m chunks s) \<le> length chunks + length s + 2"
proof -
  obtain chunks' wordChunk
    where f: "foldl (wordStep m) (chunks, []) (splitWords [] s) = (chunks', wordChunk)"
    by (cases "foldl (wordStep m) (chunks, []) (splitWords [] s)")
  have "length chunks' \<le> length chunks + length (splitWords [] s)"
    using length_wordSteps [of m "(chunks, [])" "splitWords [] s"] f by simp
  then have "length chunks' \<le> length chunks + length s + 1"
    using length_splitWords [of "[]" s] by simp
  then show ?thesis
    by (simp add: splitByWords_def f)
qed

lemma length_sentenceStep:
  "length (fst (sentenceStep m st s)) \<le> length (fst st) + length s + 2"
  using length_splitByWords [of m "fst st" s] by (cases st) simp

lemma length_sentenceSteps:
  "length (fst (foldl (sentenceStep m) st ss))
     \<le> length (fst st) + sum_list (map length ss) + 2 * length ss"
proof (induction ss arbitrary: st)
  case Nil
  then show ?case by simp
next
  case (Cons s ss)
  show ?case
    using Cons [of "sentenceStep m st s"] length_sentenceStep [of m st s] by simp
qed

text \<open>
  C10. For every text and every integer \<^verbatim>\<open>maxChunkSize\<close>, of either sign, the loop over
  the sentences runs at most once more than the text has code units, the loop over the
  words of a sentence at most once more than the sentence has code units, and the list
  returned has at most \<open>2 * length text + 3\<close> chunks.
\<close>

theorem splitTextIntoChunks_bounded:
  "length (splitSentences [] text) \<le> length text + 1 \<and>
   length (splitWords [] sentence) \<le> length sentence + 1 \<and>
   length (splitTextIntoChunks text maxChunkSize) \<le> 2 * length text + 3"
proof -
  let ?ss = "splitSentences [] text"
  obtain chunks currentChunk
    where f: "foldl (sentenceStep maxChunkSize) ([], []) ?ss = (chunks, currentChunk)"
    by (cases "foldl (sentenceStep maxChunkSize) ([], []) ?ss")
  have "length chunks \<le> sum_list (map length ?ss) + 2 * length ?ss"
    using length_sentenceSteps [of maxChunkSize "([], [])" "?ss"] f by simp
  moreover have "sum_list (map length ?ss) + length ?ss \<le> length text + 1"
    using length_accumulated_splitSentences [of "[]" "text"] by (simp add: length_accumulated)
  moreover have "length ?ss \<le> length text + 1"
    by (rule length_splitSentences)
  ultimately have chunks: "length chunks \<le> 2 * length text + 2"
    by linarith
  have "length (splitTextIntoChunks text maxChunkSize)
          \<le> length (if currentChunk \<noteq> [] then chunks @ [trim currentChunk] else chunks)"
    unfolding splitTextIntoChunks_def f Let_def prod.case by (rule length_filter_le)
  also have "\<dots> \<le> 2 * length text + 3"
    using chunks by simp
  finally show ?thesis
    using length_splitSentences [of "text"] length_splitWords [of "[]" sentence] by simp
qed

subsection \<open>Re-chunking\<close>

text \<open>
  As long as the buffer and the sentences to come fit into \<^verbatim>\<open>maxChunkSize\<close> (the last
  \<^verbatim>\<open>.\<close> not counted), the loop only appends.
\<close>

lemma accumulated_Cons: "accumulated (s # ss) = s @ [dot] @ accumulated ss"
  by (simp add: accumulated_def)

lemma splitSentences_nonempty: "splitSentences cur s \<noteq> []"
  by (induction cur s rule: splitSentences.induct) simp_all

lemma sentenceSteps_fit:
  "int (length currentChunk + length (accumulated ss)) \<le> m + 1 \<Longrightarrow>
   foldl (sentenceStep m) (chunks, currentChunk) ss = (chunks, currentChunk @ accumulated ss)"
proof (induction ss arbitrary: currentChunk)
  case Nil
  then show ?case by (simp add: accumulated_def)
next
  case (Cons s ss)
  from Cons.prems have fit: "int (length (currentChunk @ s)) \<le> m"
    and rest: "int (length (currentChunk @ s @ [dot]) + length (accumulated ss)) \<le> m + 1"
    by (simp_all add: accumulated_Cons)
  show ?case
    using fit Cons.IH [OF rest] by (simp add: accumulated_Cons)
qed

lemma splitSentences_ends:
  "s \<noteq> [] \<Longrightarrow> isTerminator (last s) \<Longrightarrow>
   \<exists>ps. splitSentences cur s = ps @ [[]] \<and> ps \<noteq> [] \<and>
        length (accumulated ps) \<le> length cur + length s"
proof (induction cur s rule: splitSentences.induct)
  case (1 cur)
  then show ?case by simp
next
  case (2 cur c cs)
  show ?case
  proof (cases "isTerminator c")
    case True
    let ?d = "dropWhile isTerminator cs"
    show ?thesis
    proof (cases "?d = []")
      case True
      have "splitSentences cur (c # cs) = cur # splitSentences [] ?d"
        using \<open>isTerminator c\<close> by simp
      also have "\<dots> = [cur] @ [[]]"
        unfolding True by simp
      finally have "splitSentences cur (c # cs) = [cur] @ [[]]" .
      moreover have "length (accumulated [cur]) \<le> length cur + length (c # cs)"
        by (simp add: accumulated_def)
      ultimately show ?thesis by blast
    next
      case False
      then have cs: "cs \<noteq> []" by auto
      have "last ?d = last cs"
        using False by (metis takeWhile_dropWhile_id last_appendR)
      then have "isTerminator (last ?d)" using "2.prems"(2) cs by simp
      from "2.IH"(1) [OF True False this] obtain ps
        where ps: "splitSentences [] ?d = ps @ [[]]" "ps \<noteq> []"
          "length (accumulated ps) \<le> length ?d"
        by auto
      have "length ?d \<le> length cs" by (rule length_dropWhile_le)
      with ps True have "splitSentences cur (c # cs) = (cur # ps) @ [[]]"
        and "length (accumulated (cur # ps)) \<le> length cur + length (c # cs)"
        by (simp_all add: accumulated_Cons)
      then show ?thesis by blast
    qed
  next
    case False
    with "2.prems"(2) have cs: "cs \<noteq> []" by auto
    then have "isTerminator (last cs)" using "2.prems"(2) by simp
    from "2.IH"(2) [OF False cs this] False show ?thesis by auto
  qed
qed

text \<open>
  A text made of blocks is split block by block. A block with no separator extends the
  sentence being read. A block that ends with a separator closes the sentences
  \<open>butlast (splitSentences cur r)\<close>, and the next sentence starts after the separators
  that follow.
\<close>

lemma splitSentences_free:
  "list_all (\<lambda>c. \<not> isTerminator c) x \<Longrightarrow>
   splitSentences cur (x @ rest) = splitSentences (cur @ x) rest"
  by (induction x arbitrary: cur) simp_all

lemma splitSentences_terminated:
  "r \<noteq> [] \<Longrightarrow> isTerminator (last r) \<Longrightarrow>
   splitSentences cur (r @ rest) =
     butlast (splitSentences cur r) @ splitSentences [] (dropWhile isTerminator rest)"
proof (induction cur r rule: splitSentences.induct)
  case (1 cur)
  then show ?case by simp
next
  case (2 cur c cs)
  show ?case
  proof (cases "isTerminator c")
    case True
    let ?d = "dropWhile isTerminator cs"
    show ?thesis
    proof (cases "?d = []")
      case d: True
      then have all: "\<forall>x\<in>set cs. isTerminator x" by simp
      have "dropWhile isTerminator (cs @ rest) = dropWhile isTerminator rest"
        using all by (simp add: dropWhile_append)
      moreover have "splitSentences cur (c # cs) = [cur, []]"
        using True unfolding splitSentences.simps d by simp
      ultimately show ?thesis using True by simp
    next
      case d: False
      then have cs: "cs \<noteq> []" by auto
      have app: "dropWhile isTerminator (cs @ rest) = ?d @ rest"
        using d by (auto simp: dropWhile_append)
      have "last ?d = last cs"
        using d by (metis takeWhile_dropWhile_id last_appendR)
      then have "isTerminator (last ?d)" using "2.prems"(2) cs by simp
      from "2.IH"(1) [OF True d this]
      have ih: "splitSentences [] (?d @ rest) =
          butlast (splitSentences [] ?d) @ splitSentences [] (dropWhile isTerminator rest)" .
      have ne: "splitSentences [] ?d \<noteq> []" by (rule splitSentences_nonempty)
      show ?thesis using True by (simp add: app ih ne)
    qed
  next
    case False
    with "2.prems"(2) have cs: "cs \<noteq> []" by auto
    then have "isTerminator (last cs)" using "2.prems"(2) by simp
    from "2.IH"(2) [OF False cs this] False show ?thesis by simp
  qed
qed

lemma hd_splitSentences: "length cur \<le> length (hd (splitSentences cur r))"
proof (induction cur r rule: splitSentences.induct)
  case (1 cur)
  then show ?case by simp
next
  case (2 cur c cs)
  then show ?case by (cases "isTerminator c") auto
qed

lemma inner_nonempty: "list_all (\<lambda>q. q \<noteq> []) (butlast (tl (splitSentences cur r)))"
proof (induction cur r rule: splitSentences.induct)
  case (1 cur)
  then show ?case by simp
next
  case (2 cur c cs)
  show ?case
  proof (cases "isTerminator c")
    case True
    let ?d = "dropWhile isTerminator cs"
    let ?X = "splitSentences [] ?d"
    show ?thesis
    proof (cases "?d = []")
      case d: True
      have "?X = [[]]" unfolding d by simp
      then show ?thesis using True by simp
    next
      case d: False
      then obtain e es where e: "?d = e # es" by (cases ?d) auto
      have "\<not> isTerminator e"
        using e by (metis hd_dropWhile list.sel(1) d)
      then have X: "?X = splitSentences [e] es" by (simp add: e)
      have "length [e] \<le> length (hd ?X)"
        unfolding X by (rule hd_splitSentences)
      then have hd: "hd ?X \<noteq> []" by auto
      have ne: "?X \<noteq> []" by (rule splitSentences_nonempty)
      have ih: "list_all (\<lambda>q. q \<noteq> []) (butlast (tl ?X))"
        using "2.IH"(1) [OF True] .
      have "list_all (\<lambda>q. q \<noteq> []) (butlast ?X)"
      proof (cases ?X)
        case Nil
        then show ?thesis by simp
      next
        case (Cons x xs)
        then show ?thesis using hd ih by (cases xs) simp_all
      qed
      then show ?thesis using True by simp
    qed
  next
    case False
    with "2.IH"(2) [OF False] show ?thesis by simp
  qed
qed

text \<open>
  Sentences whose appended form fits into \<^verbatim>\<open>maxChunkSize + 1\<close> overflow a non-empty
  buffer at most once: the sentence that overflows becomes the buffer and the others
  fit behind it. So a block read after a separator costs at most one chunk, and a block
  that continues a sentence begun before it at most two.
\<close>

lemma one_push:
  "int (length (accumulated ss)) \<le> m + 1 \<Longrightarrow> cc \<noteq> [] \<Longrightarrow> list_all (\<lambda>s. s \<noteq> []) ss \<Longrightarrow>
   length (fst (foldl (sentenceStep m) (chunks, cc) ss)) \<le> length chunks + 1 \<and>
   snd (foldl (sentenceStep m) (chunks, cc) ss) \<noteq> []"
proof (induction ss arbitrary: cc)
  case Nil
  then show ?case by simp
next
  case (Cons s ss)
  from Cons.prems have s: "s \<noteq> []" and rest: "list_all (\<lambda>s. s \<noteq> []) ss"
    and len: "int (length s + 1 + length (accumulated ss)) \<le> m + 1"
    by (simp_all add: accumulated_Cons)
  show ?case
  proof (cases "int (length (cc @ s)) > m")
    case True
    have "int (length s + length (accumulated ss)) \<le> m + 1" using len by simp
    then have "foldl (sentenceStep m) (chunks @ [trim cc], s) ss =
        (chunks @ [trim cc], s @ accumulated ss)"
      by (rule sentenceSteps_fit)
    then show ?thesis
      using True Cons.prems(2) s by simp
  next
    case False
    have "int (length (accumulated ss)) \<le> m + 1" using len by simp
    from Cons.IH [OF this _ rest, of "cc @ s @ [dot]"] False Cons.prems(2)
    show ?thesis by simp
  qed
qed

lemma block_sentences:
  assumes "r \<noteq> []" "isTerminator (last r)"
  obtains p ps where "splitSentences cur r = (p # ps) @ [[]]"
    and "butlast (splitSentences cur r) = p # ps"
    and "length cur \<le> length p"
    and "list_all (\<lambda>q. q \<noteq> []) ps"
    and "length (accumulated (p # ps)) \<le> length cur + length r"
proof -
  obtain qs where qs: "splitSentences cur r = qs @ [[]]" "qs \<noteq> []"
      "length (accumulated qs) \<le> length cur + length r"
    using splitSentences_ends [OF assms, of cur] by auto
  then obtain p ps where p: "qs = p # ps" by (cases qs) auto
  have "length cur \<le> length (hd (splitSentences cur r))" by (rule hd_splitSentences)
  then have 1: "length cur \<le> length p" by (simp add: qs(1) p)
  have "list_all (\<lambda>q. q \<noteq> []) (butlast (tl (splitSentences cur r)))" by (rule inner_nonempty)
  then have 2: "list_all (\<lambda>q. q \<noteq> []) ps" by (simp add: qs(1) p)
  show ?thesis
    using that [of p ps] qs 1 2 by (simp add: p)
qed

lemma block_from_run:
  assumes r: "r \<noteq> []" "isTerminator (last r)" "\<not> isTerminator (hd r)"
    and fit: "int (length r) \<le> m + 1" and cc: "cc \<noteq> []"
  shows "length (fst (foldl (sentenceStep m) (chunks, cc) (butlast (splitSentences [] r))))
           \<le> length chunks + 1 \<and>
         snd (foldl (sentenceStep m) (chunks, cc) (butlast (splitSentences [] r))) \<noteq> []"
proof -
  obtain p ps where full: "splitSentences [] r = (p # ps) @ [[]]"
    and b: "butlast (splitSentences [] r) = p # ps"
    and inner: "list_all (\<lambda>q. q \<noteq> []) ps"
    and len: "length (accumulated (p # ps)) \<le> length ([] :: jsstring) + length r"
    by (rule block_sentences [OF r(1,2), of "[]"]) blast
  obtain c cs where c: "r = c # cs" using r(1) by (cases r) auto
  then have "splitSentences [] r = splitSentences [c] cs" using r(3) by simp
  then have "length [c] \<le> length (hd (splitSentences [] r))"
    using hd_splitSentences [of "[c]" cs] by simp
  moreover have "hd (splitSentences [] r) = p"
    by (simp add: full)
  ultimately have "p \<noteq> []" by auto
  then have "list_all (\<lambda>q. q \<noteq> []) (p # ps)" using inner by simp
  moreover have "int (length (accumulated (p # ps))) \<le> m + 1" using len fit by simp
  ultimately show ?thesis
    unfolding b using cc by (intro one_push)
qed

lemma block_mid_sentence:
  assumes r: "r \<noteq> []" "isTerminator (last r)"
    and fit: "int (length r) \<le> m + 1" and cc: "cc \<noteq> []" and cur: "cur \<noteq> []"
  shows "length (fst (foldl (sentenceStep m) (chunks, cc) (butlast (splitSentences cur r))))
           \<le> length chunks + 2 \<and>
         snd (foldl (sentenceStep m) (chunks, cc) (butlast (splitSentences cur r))) \<noteq> []"
proof -
  obtain p ps where b: "butlast (splitSentences cur r) = p # ps"
    and p: "length cur \<le> length p"
    and inner: "list_all (\<lambda>q. q \<noteq> []) ps"
    and len: "length (accumulated (p # ps)) \<le> length cur + length r"
    by (rule block_sentences [OF r, of cur]) blast
  have pne: "p \<noteq> []" using p cur by auto
  have rest: "int (length (accumulated ps)) \<le> m + 1"
    using len p fit by (simp add: accumulated_Cons)
  obtain chunks' cc' where st: "sentenceStep m (chunks, cc) p = (chunks', cc')"
    by (cases "sentenceStep m (chunks, cc) p")
  have first: "length chunks' \<le> length chunks + 1 \<and> cc' \<noteq> []"
    using st cc pne by (auto split: if_splits)
  then have "cc' \<noteq> []" by simp
  from one_push [OF rest this inner, of chunks'] first
  show ?thesis
    unfolding b by (simp add: st del: sentenceStep.simps)
qed

text \<open>
  Once the buffer is not empty it stays so up to the last sentence, and the words are
  never split. Reading the blocks \<open>bs\<close> then ends with at most \<open>length bs\<close> more
  chunks, the buffer counted, than there are now, and one more for a sentence in
  progress.
\<close>

lemma pending_sentenceStep_mid:
  "cc \<noteq> [] \<Longrightarrow> pending (sentenceStep m (chunks, cc) s) \<le> length chunks + 2"
  by (simp add: pending_def)

lemma pending_sentenceStep_last:
  "cc \<noteq> [] \<Longrightarrow> pending (sentenceStep m (chunks, cc) []) \<le> length chunks + 1"
  by (simp add: pending_def)

lemma fitting_cases:
  assumes "fitting m b"
  obtains (free) "b \<noteq> []" "list_all (\<lambda>c. \<not> isTerminator c) b"
  | (terminated) "b \<noteq> []" "isTerminator (last b)" "int (length b) \<le> m + 1"
  using assms by (auto simp: fitting_def)

lemma dropWhile_free:
  "b \<noteq> [] \<Longrightarrow> list_all (\<lambda>c. \<not> isTerminator c) b \<Longrightarrow>
   dropWhile isTerminator (b @ rest) = b @ rest"
  by (cases b) simp_all

lemma blocks_after_first:
  "list_all (fitting m) bs \<Longrightarrow> cc \<noteq> [] \<Longrightarrow>
   (cur \<noteq> [] \<longrightarrow>
      pending (foldl (sentenceStep m) (chunks, cc) (splitSentences cur (concat bs)))
        \<le> length chunks + 2 + length bs) \<and>
   pending (foldl (sentenceStep m) (chunks, cc)
        (splitSentences [] (dropWhile isTerminator (concat bs))))
     \<le> length chunks + 1 + length bs"
proof (induction bs arbitrary: chunks cc cur)
  case Nil
  then show ?case
    using pending_sentenceStep_mid [of cc m chunks cur] pending_sentenceStep_last [of cc m chunks]
    by (simp del: sentenceStep.simps)
next
  case (Cons b bs)
  from Cons.prems have b: "fitting m b" and bs: "list_all (fitting m) bs" and cc: "cc \<noteq> []"
    by simp_all
  let ?rest = "concat bs"
  let ?tail = "splitSentences [] (dropWhile isTerminator ?rest)"
  have mid: "pending (foldl (sentenceStep m) (chunks', cc') (splitSentences cur' ?rest))
        \<le> length chunks' + 2 + length bs" if "cc' \<noteq> []" "cur' \<noteq> []" for chunks' cc' cur'
    using Cons.IH [OF bs that(1), of cur' chunks'] that(2) by simp
  have run: "pending (foldl (sentenceStep m) (chunks', cc') ?tail)
        \<le> length chunks' + 1 + length bs" if "cc' \<noteq> []" for chunks' cc'
    using Cons.IH [OF bs that, of "[]" chunks'] by simp
  from b show ?case
  proof (cases rule: fitting_cases)
    case free
    have 1: "splitSentences cur (concat (b # bs)) = splitSentences (cur @ b) ?rest" for cur
      using free(2) by (simp add: splitSentences_free)
    have 2: "dropWhile isTerminator (concat (b # bs)) = b @ ?rest"
      using free by (simp add: dropWhile_free)
    have 3: "splitSentences [] (b @ ?rest) = splitSentences b ?rest"
      using splitSentences_free [OF free(2), of "[]" ?rest] by simp
    show ?thesis
      using mid [OF cc, of "cur @ b" chunks] mid [OF cc, of b chunks] free(1)
      by (simp add: 1 2 3 del: sentenceStep.simps concat.simps)
  next
    case terminated
    have split: "splitSentences cur' (r @ ?rest) = butlast (splitSentences cur' r) @ ?tail"
      if "r \<noteq> []" "isTerminator (last r)" for cur' r
      using that by (rule splitSentences_terminated)
    have M: "pending (foldl (sentenceStep m) (chunks, cc) (splitSentences cur (concat (b # bs))))
        \<le> length chunks + 2 + length (b # bs)" if cur: "cur \<noteq> []"
    proof -
      let ?st = "foldl (sentenceStep m) (chunks, cc) (butlast (splitSentences cur b))"
      have blk: "length (fst ?st) \<le> length chunks + 2 \<and> snd ?st \<noteq> []"
        using terminated cc cur by (intro block_mid_sentence)
      then have "pending (foldl (sentenceStep m) (fst ?st, snd ?st) ?tail)
          \<le> length (fst ?st) + 1 + length bs"
        by (intro run) simp
      then show ?thesis
        using blk by (simp add: split [OF terminated(1,2)] del: sentenceStep.simps)
    qed
    have R: "pending (foldl (sentenceStep m) (chunks, cc)
          (splitSentences [] (dropWhile isTerminator (concat (b # bs)))))
        \<le> length chunks + 1 + length (b # bs)"
    proof (cases "dropWhile isTerminator b = []")
      case True
      then have "dropWhile isTerminator (concat (b # bs)) = dropWhile isTerminator ?rest"
        by (simp add: dropWhile_append)
      then show ?thesis
        using run [OF cc, of chunks] by (simp del: sentenceStep.simps)
    next
      case False
      let ?r = "dropWhile isTerminator b"
      have app: "dropWhile isTerminator (concat (b # bs)) = ?r @ ?rest"
        using False by (auto simp: dropWhile_append)
      have last: "isTerminator (last ?r)"
        using False terminated(2) by (metis takeWhile_dropWhile_id last_appendR)
      have hd: "\<not> isTerminator (hd ?r)"
        using False by (rule hd_dropWhile)
      have "length ?r \<le> length b" by (rule length_dropWhile_le)
      then have fit: "int (length ?r) \<le> m + 1" using terminated(3) by simp
      let ?st = "foldl (sentenceStep m) (chunks, cc) (butlast (splitSentences [] ?r))"
      have blk: "length (fst ?st) \<le> length chunks + 1 \<and> snd ?st \<noteq> []"
        using False last hd fit cc by (intro block_from_run)
      then have "pending (foldl (sentenceStep m) (fst ?st, snd ?st) ?tail)
          \<le> length (fst ?st) + 1 + length bs"
        by (intro run) simp
      then show ?thesis
        using blk by (simp add: app split [OF False last] del: sentenceStep.simps concat.simps)
    qed
    show ?thesis using M R by blast
  qed
qed

text \<open>
  From the start, with a first sentence that fits: the buffer is empty until that
  sentence is appended, and the blocks it runs through are paid for as before.
\<close>

lemma blocks_from_start:
  "list_all (fitting m) bs \<Longrightarrow> cur \<noteq> [] \<or> bs \<noteq> [] \<Longrightarrow>
   int (length (hd (splitSentences cur (concat bs)))) \<le> m \<Longrightarrow>
   pending (foldl (sentenceStep m) (chunks, []) (splitSentences cur (concat bs)))
     \<le> length chunks + (if cur = [] then 0 else 1) + length bs"
proof (induction bs arbitrary: cur)
  case Nil
  then show ?case by (simp add: pending_def)
next
  case (Cons b bs)
  from Cons.prems have b: "fitting m b" and bs: "list_all (fitting m) bs" by simp_all
  let ?rest = "concat bs"
  let ?tail = "splitSentences [] (dropWhile isTerminator ?rest)"
  have run: "pending (foldl (sentenceStep m) (chunks', cc') ?tail)
        \<le> length chunks' + 1 + length bs" if "cc' \<noteq> []" for chunks' cc'
    using blocks_after_first [OF bs that, of "[]" chunks'] by simp
  from b show ?case
  proof (cases rule: fitting_cases)
    case free
    have 1: "splitSentences cur (concat (b # bs)) = splitSentences (cur @ b) ?rest"
      using free(2) by (simp add: splitSentences_free)
    have "int (length (hd (splitSentences (cur @ b) ?rest))) \<le> m"
      using Cons.prems(3) unfolding 1 .
    from Cons.IH [OF bs _ this] free(1) show ?thesis
      by (simp add: 1 del: sentenceStep.simps concat.simps)
  next
    case terminated
    obtain p ps where full: "splitSentences cur b = (p # ps) @ [[]]"
      and blk: "butlast (splitSentences cur b) = p # ps"
      and p: "length cur \<le> length p"
      and inner: "list_all (\<lambda>q. q \<noteq> []) ps"
      and len: "length (accumulated (p # ps)) \<le> length cur + length b"
      by (rule block_sentences [OF terminated(1,2), of cur]) blast
    have split: "splitSentences cur (concat (b # bs)) = (p # ps) @ ?tail"
      using splitSentences_terminated [OF terminated(1,2), of cur ?rest] by (simp add: blk)
    then have "int (length p) \<le> m" using Cons.prems(3) by simp
    then have first: "sentenceStep m (chunks, []) p = (chunks, p @ [dot])" by simp
    let ?st = "foldl (sentenceStep m) (chunks, p @ [dot]) ps"
    have "length (fst ?st) \<le> length chunks + (if cur = [] then 0 else 1) \<and> snd ?st \<noteq> []"
    proof (cases "cur = []")
      case True
      have "int (length (p @ [dot]) + length (accumulated ps)) \<le> m + 1"
        using len terminated(3) True by (simp add: accumulated_Cons)
      then have "?st = (chunks, (p @ [dot]) @ accumulated ps)"
        by (rule sentenceSteps_fit)
      then show ?thesis using True by simp
    next
      case False
      have "int (length (accumulated ps)) \<le> m + 1"
        using len p terminated(3) by (simp add: accumulated_Cons)
      from one_push [OF this _ inner, of "p @ [dot]" chunks] False show ?thesis by simp
    qed
    then have "pending (foldl (sentenceStep m) (fst ?st, snd ?st) ?tail)
          \<le> length chunks + (if cur = [] then 0 else 1) + 1 + length bs"
      using run [of "snd ?st" "fst ?st"] by simp
    then show ?thesis
      by (simp add: split first del: sentenceStep.simps concat.simps)
  qed
qed

lemma length_splitTextIntoChunks_pending:
  "length (splitTextIntoChunks text m)
     \<le> pending (foldl (sentenceStep m) ([], []) (splitSentences [] text))"
proof -
  obtain chunks cc where f: "foldl (sentenceStep m) ([], []) (splitSentences [] text) = (chunks, cc)"
    by (cases "foldl (sentenceStep m) ([], []) (splitSentences [] text)")
  let ?all = "if cc \<noteq> [] then chunks @ [trim cc] else chunks"
  have "splitTextIntoChunks text m = filter (\<lambda>chunk. length chunk > 0) ?all"
    by (simp add: splitTextIntoChunks_def f)
  moreover have "length (filter (\<lambda>chunk. length chunk > 0) ?all) \<le> length ?all"
    by (rule length_filter_le)
  moreover have "length ?all = pending (chunks, cc)"
    by (simp add: pending_def)
  ultimately show ?thesis
    by (simp only: f)
qed

lemma rechunk_blocks:
  assumes "list_all (fitting m) bs" "bs \<noteq> []"
    and "int (length (hd (splitSentences [] (concat bs)))) \<le> m"
  shows "length (splitTextIntoChunks (concat bs) m) \<le> length bs"
  using blocks_from_start [OF assms(1) _ assms(3), of "[]"] assms(2)
    length_splitTextIntoChunks_pending [of "concat bs" m]
  by simp

text \<open>
  Every chunk that \<^verbatim>\<open>splitTextIntoChunks\<close> emits is such a block, for every text and
  every \<^verbatim>\<open>maxChunkSize\<close>: the buffer has no separator or ends with the \<^verbatim>\<open>.\<close> appended
  last, within the bound tested just before; a group of words has no separator; and
  \<^verbatim>\<open>trim\<close> keeps both.
\<close>

lemma terminator_not_whitespace: "isTerminator c \<Longrightarrow> \<not> isWhiteSpace c"
  using whitespace_not_terminator by blast

lemma space_not_terminator: "\<not> isTerminator space"
  using whitespace_not_terminator [OF space_whitespace] .

lemma set_trim: "set (trim s) \<subseteq> set s"
proof -
  have "set (trim s) \<subseteq> set (dropWhile isWhiteSpace s)"
    unfolding trim_def using set_dropWhileD [of _ isWhiteSpace "rev (dropWhile isWhiteSpace s)"]
    by auto
  also have "\<dots> \<subseteq> set s"
    using set_dropWhileD [of _ isWhiteSpace s] by auto
  finally show ?thesis .
qed

lemma length_trim: "length (trim s) \<le> length s"
proof -
  have "length (trim s) \<le> length (dropWhile isWhiteSpace s)"
    unfolding trim_def using length_dropWhile_le [of isWhiteSpace "rev (dropWhile isWhiteSpace s)"]
    by simp
  also have "\<dots> \<le> length s" by (rule length_dropWhile_le)
  finally show ?thesis .
qed

lemma trim_keeps_last:
  assumes "s \<noteq> []" "\<not> isWhiteSpace (last s)"
  shows "trim s \<noteq> [] \<and> last (trim s) = last s"
proof -
  let ?d = "dropWhile isWhiteSpace s"
  have "last s \<in> set s" using assms(1) by simp
  then have d: "?d \<noteq> []" using assms(2) by auto
  then have last: "last ?d = last s"
    by (metis takeWhile_dropWhile_id last_appendR)
  have "hd (rev ?d) = last ?d" using d by (simp add: hd_rev)
  then have "\<not> isWhiteSpace (hd (rev ?d))" using last assms(2) by simp
  then have "dropWhile isWhiteSpace (rev ?d) = rev ?d"
    using d by (cases "rev ?d") simp_all
  then have "trim s = ?d" by (simp add: trim_def)
  then show ?thesis using d last by simp
qed

lemma trim_fitting:
  assumes "c = [] \<or> fitting m c"
  shows "trim c = [] \<or> fitting m (trim c)"
proof (cases "c = []")
  case True
  then show ?thesis by (simp add: trim_def)
next
  case False
  then have "fitting m c" using assms by simp
  then show ?thesis
  proof (cases rule: fitting_cases)
    case free
    then have "list_all (\<lambda>c. \<not> isTerminator c) (trim c)"
      using set_trim [of c] by (auto simp: list_all_iff)
    then show ?thesis by (auto simp: fitting_def)
  next
    case terminated
    have "trim c \<noteq> [] \<and> last (trim c) = last c"
      using terminated(1,2) by (intro trim_keeps_last terminator_not_whitespace)
    then show ?thesis
      using terminated length_trim [of c] by (simp add: fitting_def)
  qed
qed

lemma splitSentences_pieces_free:
  "list_all (\<lambda>c. \<not> isTerminator c) cur \<Longrightarrow>
   list_all (list_all (\<lambda>c. \<not> isTerminator c)) (splitSentences cur s)"
  by (induction cur s rule: splitSentences.induct) simp_all

lemma splitWords_free:
  "list_all (\<lambda>c. \<not> isTerminator c) cur \<Longrightarrow> list_all (\<lambda>c. \<not> isTerminator c) s \<Longrightarrow>
   list_all (list_all (\<lambda>c. \<not> isTerminator c)) (splitWords cur s)"
  by (induction s arbitrary: cur) simp_all

lemma free_fitting:
  "list_all (\<lambda>c. \<not> isTerminator c) c \<Longrightarrow> c = [] \<or> fitting m c"
  by (simp add: fitting_def)

lemma wordSteps_fitting:
  "list_all (\<lambda>c. c = [] \<or> fitting m c) chunks \<Longrightarrow>
   list_all (\<lambda>c. \<not> isTerminator c) wordChunk \<Longrightarrow>
   list_all (list_all (\<lambda>c. \<not> isTerminator c)) ws \<Longrightarrow>
   list_all (\<lambda>c. c = [] \<or> fitting m c) (fst (foldl (wordStep m) (chunks, wordChunk) ws)) \<and>
   list_all (\<lambda>c. \<not> isTerminator c) (snd (foldl (wordStep m) (chunks, wordChunk) ws))"
proof (induction ws arbitrary: chunks wordChunk)
  case Nil
  then show ?case by simp
next
  case (Cons w ws)
  from Cons.prems have w: "list_all (\<lambda>c. \<not> isTerminator c) w"
    and ws: "list_all (list_all (\<lambda>c. \<not> isTerminator c)) ws" by simp_all
  have push: "list_all (\<lambda>c. c = [] \<or> fitting m c) (chunks @ [trim wordChunk])"
    using Cons.prems(1,2) trim_fitting [OF free_fitting, of wordChunk m] by simp
  have grow: "list_all (\<lambda>c. \<not> isTerminator c) (wordChunk @ [space] @ w)"
    using Cons.prems(2) w space_not_terminator by simp
  obtain chunks' wc' where st: "wordStep m (chunks, wordChunk) w = (chunks', wc')"
    by (cases "wordStep m (chunks, wordChunk) w")
  have "list_all (\<lambda>c. c = [] \<or> fitting m c) chunks' \<and> list_all (\<lambda>c. \<not> isTerminator c) wc'"
    using st push grow w Cons.prems(1,2) by (auto split: if_splits)
  then show ?case
    using Cons.IH [OF _ _ ws, of chunks' wc'] by (simp add: st del: wordStep.simps)
qed

lemma splitByWords_fitting:
  assumes "list_all (\<lambda>c. c = [] \<or> fitting m c) chunks" "list_all (\<lambda>c. \<not> isTerminator c) s"
  shows "list_all (\<lambda>c. c = [] \<or> fitting m c) (splitByWords m chunks s)"
proof -
  obtain chunks' wc where f: "foldl (wordStep m) (chunks, []) (splitWords [] s) = (chunks', wc)"
    by (cases "foldl (wordStep m) (chunks, []) (splitWords [] s)")
  have "list_all (list_all (\<lambda>c. \<not> isTerminator c)) (splitWords [] s)"
    using assms(2) by (simp add: splitWords_free)
  from wordSteps_fitting [OF assms(1) _ this, of "[]"] f
  have "list_all (\<lambda>c. c = [] \<or> fitting m c) chunks'" "list_all (\<lambda>c. \<not> isTerminator c) wc"
    by simp_all
  then show ?thesis
    using trim_fitting [OF free_fitting, of wc m] by (simp add: splitByWords_def f)
qed

lemma sentenceSteps_fitting:
  "list_all (\<lambda>c. c = [] \<or> fitting m c) chunks \<Longrightarrow> cc = [] \<or> fitting m cc \<Longrightarrow>
   list_all (list_all (\<lambda>c. \<not> isTerminator c)) ss \<Longrightarrow>
   list_all (\<lambda>c. c = [] \<or> fitting m c) (fst (foldl (sentenceStep m) (chunks, cc) ss)) \<and>
   (snd (foldl (sentenceStep m) (chunks, cc) ss) = [] \<or>
    fitting m (snd (foldl (sentenceStep m) (chunks, cc) ss)))"
proof (induction ss arbitrary: chunks cc)
  case Nil
  then show ?case by simp
next
  case (Cons s ss)
  from Cons.prems have s: "list_all (\<lambda>c. \<not> isTerminator c) s"
    and ss: "list_all (list_all (\<lambda>c. \<not> isTerminator c)) ss" by simp_all
  obtain chunks' cc' where st: "sentenceStep m (chunks, cc) s = (chunks', cc')"
    by (cases "sentenceStep m (chunks, cc) s")
  have "list_all (\<lambda>c. c = [] \<or> fitting m c) chunks' \<and> (cc' = [] \<or> fitting m cc')"
  proof (cases "int (length (cc @ s)) > m")
    case True
    show ?thesis
    proof (cases "cc = []")
      case cc: True
      then show ?thesis
        using st True splitByWords_fitting [OF Cons.prems(1) s] by auto
    next
      case cc: False
      then show ?thesis
        using st True Cons.prems(1) trim_fitting [OF Cons.prems(2)] free_fitting [OF s, of m]
        by auto
    qed
  next
    case False
    then have "fitting m (cc @ s @ [dot])"
      by (simp add: fitting_def dot_terminator)
    then show ?thesis using st False Cons.prems(1) by auto
  qed
  then show ?case
    using Cons.IH [OF _ _ ss, of chunks' cc'] by (simp add: st del: sentenceStep.simps)
qed

lemma splitTextIntoChunks_fitting: "list_all (fitting m) (splitTextIntoChunks text m)"
proof -
  obtain chunks cc where f: "foldl (sentenceStep m) ([], []) (splitSentences [] text) = (chunks, cc)"
    by (cases "foldl (sentenceStep m) ([], []) (splitSentences [] text)")
  have "list_all (list_all (\<lambda>c. \<not> isTerminator c)) (splitSentences [] text)"
    by (simp add: splitSentences_pieces_free)
  from sentenceSteps_fitting [OF _ _ this, of m "[]" "[]"] f
  have chunks: "list_all (\<lambda>c. c = [] \<or> fitting m c) chunks" and cc: "cc = [] \<or> fitting m cc"
    by simp_all
  have "list_all (\<lambda>c. c = [] \<or> fitting m c) (if cc \<noteq> [] then chunks @ [trim cc] else chunks)"
    using chunks trim_fitting [OF cc] by simp
  then have "list_all (fitting m)
      (filter (\<lambda>chunk. length chunk > 0) (if cc \<noteq> [] then chunks @ [trim cc] else chunks))"
    by (auto simp: list_all_iff)
  then show ?thesis
    by (simp add: splitTextIntoChunks_def f)
qed

text \<open>
  When the first sentence of the text fits, the first chunk emitted starts with it (its
  leading white space trimmed) and its \<^verbatim>\<open>.\<close>, so the concatenation of the chunks has a
  first sentence that fits too.
\<close>

lemma trim_around_dot:
  "\<exists>y. trim (s @ dot # x) = dropWhile isWhiteSpace s @ dot # y"
proof -
  let ?a = "dropWhile isWhiteSpace s"
  let ?w = "dropWhile isWhiteSpace (rev x)"
  have left: "dropWhile isWhiteSpace (s @ dot # x) = ?a @ dot # x"
    by (simp add: dropWhile_append dot_not_whitespace)
  have "dropWhile isWhiteSpace (rev x @ dot # rev ?a) = ?w @ dot # rev ?a"
    by (simp add: dropWhile_append dot_not_whitespace)
  then have "trim (s @ dot # x) = ?a @ dot # rev ?w"
    by (simp add: trim_def left)
  then show ?thesis by blast
qed

lemma wordSteps_prefix:
  "\<exists>ys. fst (foldl (wordStep m) (chunks, wordChunk) ws) = chunks @ ys"
proof (induction ws arbitrary: chunks wordChunk)
  case Nil
  then show ?case by simp
next
  case (Cons w ws)
  obtain chunks' wc' where st: "wordStep m (chunks, wordChunk) w = (chunks', wc')"
    by (cases "wordStep m (chunks, wordChunk) w")
  then obtain zs where "chunks' = chunks @ zs"
    by (auto split: if_splits)
  moreover obtain ys where "fst (foldl (wordStep m) (chunks', wc') ws) = chunks' @ ys"
    using Cons.IH by blast
  ultimately show ?case
    by (simp add: st del: wordStep.simps)
qed

lemma splitByWords_prefix: "\<exists>ys. splitByWords m chunks s = chunks @ ys"
proof -
  obtain chunks' wc where f: "foldl (wordStep m) (chunks, []) (splitWords [] s) = (chunks', wc)"
    by (cases "foldl (wordStep m) (chunks, []) (splitWords [] s)")
  obtain ys where "chunks' = chunks @ ys"
    using wordSteps_prefix [of m chunks "[]" "splitWords [] s"] f by auto
  then show ?thesis
    by (simp add: splitByWords_def f)
qed

lemma sentenceSteps_first_chunk:
  "(chunks = [] \<and> (\<exists>x. cc = s1 @ dot # x)) \<or> (\<exists>x rest. chunks = trim (s1 @ dot # x) # rest) \<Longrightarrow>
   (fst (foldl (sentenceStep m) (chunks, cc) ss) = [] \<and>
      (\<exists>x. snd (foldl (sentenceStep m) (chunks, cc) ss) = s1 @ dot # x)) \<or>
   (\<exists>x rest. fst (foldl (sentenceStep m) (chunks, cc) ss) = trim (s1 @ dot # x) # rest)"
proof (induction ss arbitrary: chunks cc)
  case Nil
  then show ?case by simp
next
  case (Cons s ss)
  obtain chunks' cc' where st: "sentenceStep m (chunks, cc) s = (chunks', cc')"
    by (cases "sentenceStep m (chunks, cc) s")
  have "(chunks' = [] \<and> (\<exists>x. cc' = s1 @ dot # x)) \<or> (\<exists>x rest. chunks' = trim (s1 @ dot # x) # rest)"
    using Cons.prems
  proof
    assume a: "chunks = [] \<and> (\<exists>x. cc = s1 @ dot # x)"
    then obtain x where x: "cc = s1 @ dot # x" by blast
    then have cc: "cc \<noteq> []" by simp
    show ?thesis
    proof (cases "int (length (cc @ s)) > m")
      case True
      then have "chunks' = [trim (s1 @ dot # x)]" using st cc a x by simp
      then show ?thesis by blast
    next
      case False
      then have "chunks' = []" "cc' = s1 @ dot # (x @ s @ [dot])" using st a x by simp_all
      then show ?thesis by blast
    qed
  next
    assume "\<exists>x rest. chunks = trim (s1 @ dot # x) # rest"
    then obtain x rest where c: "chunks = trim (s1 @ dot # x) # rest" by blast
    obtain ys where ys: "splitByWords m chunks s = chunks @ ys"
      using splitByWords_prefix by blast
    have "chunks' = chunks @ ys \<or> chunks' = chunks @ [trim cc] \<or> chunks' = chunks"
      using st by (auto simp: ys split: if_splits)
    then have "\<exists>zs. chunks' = chunks @ zs" by auto
    then show ?thesis using c by auto
  qed
  from Cons.IH [OF this] show ?case
    by (simp add: st del: sentenceStep.simps)
qed

lemma first_sentence_kept:
  assumes fit: "int (length (hd (splitSentences [] text))) \<le> m"
  shows "splitTextIntoChunks text m \<noteq> [] \<and>
         int (length (hd (splitSentences [] (concat (splitTextIntoChunks text m))))) \<le> m"
proof -
  obtain s1 ss where ss: "splitSentences [] text = s1 # ss"
    using splitSentences_nonempty [of "[]" "text"] by (cases "splitSentences [] text") auto
  have free: "list_all (\<lambda>c. \<not> isTerminator c) s1"
    using splitSentences_pieces_free [of "[]" "text"] by (simp add: ss)
  have s1: "int (length s1) \<le> m" using fit by (simp add: ss)
  let ?a = "dropWhile isWhiteSpace s1"
  obtain chunks cc where f: "foldl (sentenceStep m) ([], s1 @ [dot]) ss = (chunks, cc)"
    by (cases "foldl (sentenceStep m) ([], s1 @ [dot]) ss")
  have run: "foldl (sentenceStep m) ([], []) (splitSentences [] text) = (chunks, cc)"
    using s1 f by (simp add: ss)
  have "(chunks = [] \<and> (\<exists>x. cc = s1 @ dot # x)) \<or> (\<exists>x rest. chunks = trim (s1 @ dot # x) # rest)"
    using sentenceSteps_first_chunk [of "[]" "s1 @ [dot]" s1 m ss] f by simp
  then have "\<exists>x rest. (if cc \<noteq> [] then chunks @ [trim cc] else chunks) = trim (s1 @ dot # x) # rest"
    by auto
  then obtain x rest
    where all: "(if cc \<noteq> [] then chunks @ [trim cc] else chunks) = trim (s1 @ dot # x) # rest"
    by blast
  obtain y where y: "trim (s1 @ dot # x) = ?a @ dot # y"
    using trim_around_dot by blast
  have C: "splitTextIntoChunks text m = (?a @ dot # y) # filter (\<lambda>chunk. length chunk > 0) rest"
    unfolding splitTextIntoChunks_def run Let_def prod.case all y by simp
  have afree: "list_all (\<lambda>c. \<not> isTerminator c) ?a"
    using free set_dropWhileD [of _ isWhiteSpace s1] by (auto simp: list_all_iff)
  have "splitSentences [] (?a @ dot # z) = splitSentences ([] @ ?a) (dot # z)" for z
    using afree by (rule splitSentences_free)
  then have "hd (splitSentences [] (?a @ dot # z)) = ?a" for z
    by (simp add: dot_terminator)
  then have "hd (splitSentences [] (concat (splitTextIntoChunks text m))) = ?a"
    by (simp add: C)
  moreover have "length ?a \<le> length s1" by (rule length_dropWhile_le)
  ultimately show ?thesis using s1 by (simp add: C)
qed

text \<open>
  C9, as stated, fails. With \<^verbatim>\<open>maxChunkSize = 3\<close> the text \<^verbatim>\<open>  a a.a\<close> has the two
  chunks \<^verbatim>\<open>a a\<close> and \<^verbatim>\<open>a.\<close>; their concatenation \<^verbatim>\<open>a aa.\<close> has the three chunks
  \<^verbatim>\<open>a\<close>, \<^verbatim>\<open>aa\<close> and \<^verbatim>\<open>.\<close>.
\<close>

theorem rechunk_counterexample:
  "splitTextIntoChunks (js ''  a a.a'') 3 = [js ''a a'', js ''a.''] \<and>
   splitTextIntoChunks (concat (splitTextIntoChunks (js ''  a a.a'') 3)) 3 =
     [js ''a'', js ''aa'', js ''.'']"
  by (simp add: js_eval)

text \<open>
  C9, amended. If the first sentence of the text is at most \<^verbatim>\<open>maxChunkSize\<close> long, or
  if at least one chunk is emitted and the first sentence of the concatenation of the
  chunks is at most \<^verbatim>\<open>maxChunkSize\<close> long, chunking the concatenation again with the
  same \<^verbatim>\<open>maxChunkSize\<close> gives no more chunks than the first time. (The first sentence is
  the part before the first of \<^verbatim>\<open>.\<close>, \<^verbatim>\<open>!\<close> and \<^verbatim>\<open>?\<close>; the counterexample starts with
  \<^verbatim>\<open>a aa\<close>, longer than 3, which is split by words.)
\<close>

theorem rechunk_stable:
  assumes "int (length (hd (splitSentences [] text))) \<le> maxChunkSize \<or>
      (splitTextIntoChunks text maxChunkSize \<noteq> [] \<and>
       int (length (hd (splitSentences [] (concat (splitTextIntoChunks text maxChunkSize)))))
         \<le> maxChunkSize)"
  shows "length (splitTextIntoChunks (concat (splitTextIntoChunks text maxChunkSize)) maxChunkSize)
           \<le> length (splitTextIntoChunks text maxChunkSize)"
proof -
  have "splitTextIntoChunks text maxChunkSize \<noteq> [] \<and>
       int (length (hd (splitSentences [] (concat (splitTextIntoChunks text maxChunkSize)))))
         \<le> maxChunkSize"
    using assms first_sentence_kept by blast
  then show ?thesis
    by (intro rechunk_blocks splitTextIntoChunks_fitting) simp_all
qed

theorem rechunk_stable_witness:
  "splitTextIntoChunks (js ''ab.cd e.fg'') 3 = [js ''ab.'', js ''cd e'', js ''fg''] \<and>
   hd (splitSentences [] (concat (splitTextIntoChunks (js ''ab.cd e.fg'') 3))) = js ''ab'' \<and>
   splitTextIntoChunks (concat (splitTextIntoChunks (js ''ab.cd e.fg'') 3)) 3 =
     [js ''ab.'', js ''cd efg''] \<and>
   length (splitTextIntoChunks (concat (splitTextIntoChunks (js ''ab.cd e.fg'') 3)) 3) \<le> 3"
proof -
  have one: "splitTextIntoChunks (js ''ab.cd e.fg'') 3 = [js ''ab.'', js ''cd e'', js ''fg'']"
    by (simp add: js_eval)
  have first: "hd (splitSentences [] (concat (splitTextIntoChunks (js ''ab.cd e.fg'') 3))) = js ''ab''"
    by (simp add: one) (simp add: js_eval)
  have hyp: "int (length (hd (splitSentences [] (js ''ab.cd e.fg'')))) \<le> 3 \<or>
      (splitTextIntoChunks (js ''ab.cd e.fg'') 3 \<noteq> [] \<and>
       int (length (hd (splitSentences [] (concat (splitTextIntoChunks (js ''ab.cd e.fg'') 3)))))
         \<le> 3)"
    unfolding first by (simp add: one) (simp add: js_def)
  have again: "splitTextIntoChunks (concat (splitTextIntoChunks (js ''ab.cd e.fg'') 3)) 3 =
     [js ''ab.'', js ''cd efg'']"
    by (simp add: one) (simp add: js_eval)
  from rechunk_stable [OF hyp] show ?thesis
    using one first again by simp
qed

end
